theory Spec2Isabelle
  imports Main
begin

section \<open>Values of the host language\<close>

text \<open>
  The hook does arithmetic on JavaScript numbers. Clock readings (\<open>Date.now()\<close>) and
  delays are whole milliseconds, modelled as \<open>int\<close>; the one non-integer value the
  set-up code tests for is \<open>NaN\<close>. A parameter that may be left out has an
  \<open>option\<close> type, with \<open>None\<close> for \<open>undefined\<close>.
\<close>

datatype jsnum = NaN | Num int

text \<open>Unary plus: \<open>+undefined\<close> is \<open>NaN\<close>, a number is itself.\<close>

definition to_number :: "jsnum option \<Rightarrow> jsnum" where
  "to_number v = (case v of None \<Rightarrow> NaN | Some n \<Rightarrow> n)"

text \<open>\<open>x || 0\<close> for a number \<open>x\<close>: \<open>NaN\<close> and \<open>0\<close> are falsy.\<close>

definition or_zero :: "jsnum \<Rightarrow> int" where
  "or_zero n = (case n of NaN \<Rightarrow> 0 | Num i \<Rightarrow> i)"

text \<open>\<open>!v\<close> for a possibly missing number.\<close>

definition falsy :: "jsnum option \<Rightarrow> bool" where
  "falsy v = (case v of None \<Rightarrow> True | Some NaN \<Rightarrow> True | Some (Num i) \<Rightarrow> i = 0)"

text \<open>
  A ref that holds \<open>null\<close> or a clock reading: \<open>!r\<close> is true for \<open>null\<close> and for
  the reading \<open>0\<close>, and \<open>null\<close> counts as \<open>0\<close> in a subtraction or comparison.
\<close>

definition not_set :: "int option \<Rightarrow> bool" where
  "not_set r = (case r of None \<Rightarrow> True | Some t \<Rightarrow> t = 0)"

definition num_of :: "int option \<Rightarrow> int" where
  "num_of r = (case r of None \<Rightarrow> 0 | Some t \<Rightarrow> t)"

section \<open>Options and the values fixed at set-up\<close>

text \<open>
  \<open>interface Options\<close>. A field is \<open>None\<close> when the key is absent from the object.
  A key that is present with the value \<open>undefined\<close> is written \<open>Some NaN\<close> for
  \<open>maxWait\<close> and \<open>Some False\<close> for the two flags, which is what \<open>+\<close> and
  \<open>!!\<close> make of it.
\<close>

record options =
  opt_maxWait :: "jsnum option"
  opt_leading :: "bool option"
  opt_trailing :: "bool option"

record config =
  useRAF :: bool
  wait :: int
  leading :: bool
  trailing :: bool
  maxing :: bool
  maxWait :: "int option"

text \<open>
  Lines 35 to 47 of \<open>useDebouncedCallback\<close>. \<open>hasWindow\<close> is
  \<open>typeof window !== 'undefined'\<close>. The \<open>TypeError\<close> for a target that is not a
  function is outside the model: \<open>func\<close> is a function here by its type.
\<close>

definition configure :: "bool \<Rightarrow> jsnum option \<Rightarrow> options option \<Rightarrow> config" where
  "configure hasWindow wait0 options0 =
    (let useRAF' = (falsy wait0 \<and> wait0 \<noteq> Some (Num 0) \<and> hasWindow);
         wait' = or_zero (to_number wait0);
         opts = (case options0 of
                   None \<Rightarrow> \<lparr>opt_maxWait = None, opt_leading = None, opt_trailing = None\<rparr>
                 | Some p \<Rightarrow> p);
         leading' = (opt_leading opts = Some True);
         trailing' = (case opt_trailing opts of None \<Rightarrow> True | Some b \<Rightarrow> b);
         maxing' = (opt_maxWait opts \<noteq> None);
         maxWait' = (if maxing' then Some (max (or_zero (to_number (opt_maxWait opts))) wait')
                     else None)
     in \<lparr>useRAF = useRAF', wait = wait', leading = leading', trailing = trailing',
         maxing = maxing', maxWait = maxWait'\<rparr>)"

section \<open>The refs of the hook and the host's timers\<close>

text \<open>
  A live timer of the host: its handle, the primitive that made it (\<open>setTimeout\<close>
  with its delay, or \<open>requestAnimationFrame\<close>) and the clock reading when it was
  made. Its callback is always \<open>timerExpired\<close>.
\<close>

datatype timer_kind = Timeout int | AnimationFrame

datatype timer = Timer (tm_id: nat) (tm_kind: timer_kind) (tm_at: int)

text \<open>
  The refs of lines 24 to 31, then what the host holds for this hook: the timers that
  are scheduled and not yet run or cancelled, and the next handle it will hand out.
  Handles are truthy (positive integers in a browser, objects under Node), so
  \<open>!timerId.current\<close> is \<open>timerId = None\<close>. \<open>invoked\<close> records every call of
  \<open>func\<close> by \<open>invokeFunc\<close>, oldest first, with the time passed to
  \<open>invokeFunc\<close> and the arguments. \<open>lastThis\<close> is left out: it only carries the
  receiver to \<open>func\<close>.
\<close>

record ('a, 'r) hook =
  lastCallTime :: "int option"
  lastInvokeTime :: int
  timerId :: "nat option"
  lastArgs :: "'a list option"
  result :: "'r option"
  mounted :: bool
  timers :: "timer list"
  nextId :: nat
  invoked :: "(int \<times> 'a list) list"

definition fresh :: "('a, 'r) hook" where
  "fresh = \<lparr>lastCallTime = None, lastInvokeTime = 0, timerId = None, lastArgs = Some [],
            result = None, mounted = True, timers = [], nextId = 1, invoked = []\<rparr>"

text \<open>The clean-up of the effect at lines 120 to 125.\<close>

definition unmount :: "('a, 'r) hook \<Rightarrow> ('a, 'r) hook" where
  "unmount w = w\<lparr>mounted := False\<rparr>"

text \<open>
  \<open>clearTimeout\<close> and \<open>cancelAnimationFrame\<close>: the timer with that handle is no
  longer live; \<open>null\<close> cancels nothing. \<open>useRAF\<close> is fixed for a hook, so a handle
  is always cancelled by the primitive that issued it.
\<close>

definition cancelTimer :: "nat option \<Rightarrow> timer list \<Rightarrow> timer list" where
  "cancelTimer h tms = (case h of None \<Rightarrow> tms | Some i \<Rightarrow> filter (\<lambda>tm. tm_id tm \<noteq> i) tms)"

section \<open>The operations\<close>

text \<open>
  Every operation takes the hook before and returns the hook after, next to the value
  the source returns. \<open>func\<close> is a pure function \<open>f\<close> of the argument array;
  \<open>apply\<close> with \<open>null\<close> passes no arguments.
\<close>

definition invokeFunc ::
  "('a list \<Rightarrow> 'r) \<Rightarrow> int \<Rightarrow> ('a, 'r) hook \<Rightarrow> 'r option \<times> ('a, 'r) hook" where
  "invokeFunc f time w =
    (let args = (case lastArgs w of None \<Rightarrow> [] | Some a \<Rightarrow> a);
         r = f args
     in (Some r, w\<lparr>lastArgs := None, lastInvokeTime := time, result := Some r,
                   invoked := invoked w @ [(time, args)]\<rparr>))"

text \<open>\<open>now\<close> is the host's clock when the timer is made; \<open>pendingFunc\<close> is always \<open>timerExpired\<close>.\<close>

definition startTimer :: "config \<Rightarrow> int \<Rightarrow> int \<Rightarrow> ('a, 'r) hook \<Rightarrow> ('a, 'r) hook" where
  "startTimer cfg now delay w =
    (let live = (if useRAF cfg then cancelTimer (timerId w) (timers w) else timers w);
         h = nextId w;
         tm = Timer h (if useRAF cfg then AnimationFrame else Timeout delay) now
     in w\<lparr>timerId := Some h, timers := live @ [tm], nextId := Suc h\<rparr>)"

definition shouldInvoke :: "config \<Rightarrow> int \<Rightarrow> ('a, 'r) hook \<Rightarrow> bool" where
  "shouldInvoke cfg time w =
    (if \<not> mounted w then False
     else
       (let timeSinceLastCall = time - num_of (lastCallTime w);
            timeSinceLastInvoke = time - lastInvokeTime w
        in not_set (lastCallTime w) \<or>
           timeSinceLastCall \<ge> wait cfg \<or>
           timeSinceLastCall < 0 \<or>
           (maxing cfg \<and> timeSinceLastInvoke \<ge> num_of (maxWait cfg))))"

definition trailingEdge ::
  "config \<Rightarrow> ('a list \<Rightarrow> 'r) \<Rightarrow> int \<Rightarrow> ('a, 'r) hook \<Rightarrow> 'r option \<times> ('a, 'r) hook" where
  "trailingEdge cfg f time w =
    (let w1 = w\<lparr>timerId := None\<rparr>
     in if trailing cfg \<and> lastArgs w1 \<noteq> None then invokeFunc f time w1
        else (result w1, w1\<lparr>lastArgs := None\<rparr>))"

text \<open>The remaining wait that \<open>timerExpired\<close> computes at lines 98 to 102.\<close>

definition remainingWait :: "config \<Rightarrow> int \<Rightarrow> ('a, 'r) hook \<Rightarrow> int" where
  "remainingWait cfg time w =
    (let timeSinceLastCall = time - num_of (lastCallTime w);
         timeSinceLastInvoke = time - lastInvokeTime w;
         timeWaiting = wait cfg - timeSinceLastCall
     in if maxing cfg then min timeWaiting (num_of (maxWait cfg) - timeSinceLastInvoke)
        else timeWaiting)"

text \<open>\<open>time\<close> is what \<open>Date.now()\<close> returns when the host runs the callback.\<close>

definition timerExpired ::
  "config \<Rightarrow> ('a list \<Rightarrow> 'r) \<Rightarrow> int \<Rightarrow> ('a, 'r) hook \<Rightarrow> 'r option \<times> ('a, 'r) hook" where
  "timerExpired cfg f time w =
    (if shouldInvoke cfg time w then trailingEdge cfg f time w
     else (None, startTimer cfg time (remainingWait cfg time w) w))"

definition cancel :: "config \<Rightarrow> ('a, 'r) hook \<Rightarrow> ('a, 'r) hook" where
  "cancel cfg w =
    (let w1 = (if timerId w \<noteq> None then w\<lparr>timers := cancelTimer (timerId w) (timers w)\<rparr> else w)
     in w1\<lparr>lastInvokeTime := 0, lastArgs := None, lastCallTime := None, timerId := None\<rparr>)"

definition flush ::
  "config \<Rightarrow> ('a list \<Rightarrow> 'r) \<Rightarrow> int \<Rightarrow> ('a, 'r) hook \<Rightarrow> 'r option \<times> ('a, 'r) hook" where
  "flush cfg f time w =
    (if timerId w = None then (result w, w) else trailingEdge cfg f time w)"

text \<open>
  \<open>later\<close> is the tail of the function (lines 150 to 153), reached when the call
  is not invoking and when it is but neither inner branch returns.
\<close>

definition debounced ::
  "config \<Rightarrow> ('a list \<Rightarrow> 'r) \<Rightarrow> int \<Rightarrow> 'a list \<Rightarrow> ('a, 'r) hook \<Rightarrow> 'r option \<times> ('a, 'r) hook" where
  "debounced cfg f time args w =
    (let isInvoking = shouldInvoke cfg time w;
         w1 = w\<lparr>lastArgs := Some args, lastCallTime := Some time\<rparr>;
         later =
           (let w2 = (if timerId w1 = None then startTimer cfg time (wait cfg) w1 else w1)
            in (result w2, w2))
     in if isInvoking then
          (if timerId w1 = None \<and> mounted w1 then
             (let w2 = w1\<lparr>lastInvokeTime := num_of (lastCallTime w1)\<rparr>;
                  w3 = startTimer cfg time (wait cfg) w2
              in if leading cfg then invokeFunc f (num_of (lastCallTime w3)) w3
                 else (result w3, w3))
           else if maxing cfg then
             (let w2 = startTimer cfg time (wait cfg) w1
              in invokeFunc f (num_of (lastCallTime w2)) w2)
           else later)
        else later)"

definition pending :: "('a, 'r) hook \<Rightarrow> bool" where
  "pending w = (timerId w \<noteq> None)"

section \<open>A host that runs every timer when it is due\<close>

text \<open>
  The clock and the timer scheduler belong to the host. The timing properties are stated
  for a host that runs each callback exactly when it falls due: a \<open>setTimeout\<close>
  callback after its delay (a negative delay counts as none), an animation-frame
  callback at the first opportunity. Callbacks run one at a time, the one due first
  before the others and, among those due together, the one scheduled first.
\<close>

definition due :: "timer \<Rightarrow> int" where
  "due tm = (case tm_kind tm of Timeout d \<Rightarrow> tm_at tm + max 0 d | AnimationFrame \<Rightarrow> tm_at tm)"

fun earliest :: "timer list \<Rightarrow> timer option" where
  "earliest [] = None"
| "earliest (tm # tms) =
     (case earliest tms of
        None \<Rightarrow> Some tm
      | Some tm' \<Rightarrow> if due tm \<le> due tm' then Some tm else Some tm')"

definition next_due :: "int \<Rightarrow> timer list \<Rightarrow> timer option" where
  "next_due horizon tms = earliest (filter (\<lambda>tm. due tm \<le> horizon) tms)"

text \<open>The host takes the timer off its list and runs the callback at the time it is due.\<close>

definition fire :: "config \<Rightarrow> ('a list \<Rightarrow> 'r) \<Rightarrow> timer \<Rightarrow> ('a, 'r) hook \<Rightarrow> ('a, 'r) hook" where
  "fire cfg f tm w =
     snd (timerExpired cfg f (due tm) (w\<lparr>timers := filter (\<lambda>x. tm_id x \<noteq> tm_id tm) (timers w)\<rparr>))"

text \<open>
  Running the timers that fall due up to a horizon. A callback may schedule the next
  timer, so the loop need not end; it takes a bound on the number of callbacks and
  returns \<open>None\<close> when a timer is still due after that many.
\<close>

fun advance ::
  "config \<Rightarrow> ('a list \<Rightarrow> 'r) \<Rightarrow> nat \<Rightarrow> int \<Rightarrow> ('a, 'r) hook \<Rightarrow> ('a, 'r) hook option" where
  "advance cfg f 0 horizon w =
     (case next_due horizon (timers w) of None \<Rightarrow> Some w | Some tm \<Rightarrow> None)"
| "advance cfg f (Suc n) horizon w =
     (case next_due horizon (timers w) of
        None \<Rightarrow> Some w
      | Some tm \<Rightarrow> advance cfg f n horizon (fire cfg f tm w))"

text \<open>
  A run of calls \<open>(time, arguments)\<close>: before each call the timers due by then are
  run, with at most \<open>fuel\<close> callbacks between two calls.
\<close>

fun run ::
  "config \<Rightarrow> ('a list \<Rightarrow> 'r) \<Rightarrow> nat \<Rightarrow> (int \<times> 'a list) list \<Rightarrow> ('a, 'r) hook \<Rightarrow> ('a, 'r) hook option" where
  "run cfg f fuel [] w = Some w"
| "run cfg f fuel ((t, args) # cs) w =
     (case advance cfg f fuel t w of
        None \<Rightarrow> None
      | Some w' \<Rightarrow> run cfg f fuel cs (snd (debounced cfg f t args w')))"

text \<open>The calls, then the timers left over, up to a horizon.\<close>

definition simulate ::
  "config \<Rightarrow> ('a list \<Rightarrow> 'r) \<Rightarrow> nat \<Rightarrow> (int \<times> 'a list) list \<Rightarrow> int \<Rightarrow> ('a, 'r) hook \<Rightarrow> ('a, 'r) hook option" where
  "simulate cfg f fuel cs horizon w =
     (case run cfg f fuel cs w of None \<Rightarrow> None | Some w' \<Rightarrow> advance cfg f fuel horizon w')"

section \<open>Notions the properties are stated with\<close>

text \<open>
  The condition of section 4.1 of the specification for \<open>shouldInvoke\<close>, written
  from its words: the controller is enabled and (a) no call time is recorded, or
  (b) the time since the last call is at least \<open>wait\<close>, or (c) it is negative, or
  (d) \<open>maxWait\<close> is configured and the time since the last invocation has reached it.
\<close>

definition shouldInvoke_spec :: "config \<Rightarrow> int \<Rightarrow> ('a, 'r) hook \<Rightarrow> bool" where
  "shouldInvoke_spec cfg now w =
    (mounted w \<and>
     (lastCallTime w = None \<or>
      (case lastCallTime w of None \<Rightarrow> False | Some c \<Rightarrow> now - c \<ge> wait cfg) \<or>
      (case lastCallTime w of None \<Rightarrow> False | Some c \<Rightarrow> now - c < 0) \<or>
      (maxing cfg \<and> (case maxWait cfg of None \<Rightarrow> False | Some m \<Rightarrow> now - lastInvokeTime w \<ge> m))))"

text \<open>An enabled hook with nothing scheduled, neither in its handle nor at the host.\<close>

definition idle :: "('a, 'r) hook \<Rightarrow> bool" where
  "idle w = (mounted w \<and> timerId w = None \<and> timers w = [])"

text \<open>
  Calls that follow a call at time \<open>s\<close>, each less than \<open>wt\<close> after the one before
  it (and not before it); a burst is a first call and such followers.
\<close>

fun follows :: "int \<Rightarrow> int \<Rightarrow> (int \<times> 'a list) list \<Rightarrow> bool" where
  "follows wt s [] = True"
| "follows wt s (c # cs) = (s \<le> fst c \<and> fst c - s < wt \<and> follows wt (fst c) cs)"

definition burst :: "int \<Rightarrow> (int \<times> 'a list) list \<Rightarrow> bool" where
  "burst wt cs = (case cs of [] \<Rightarrow> False | c # cs' \<Rightarrow> follows wt (fst c) cs')"

text \<open>The differences between consecutive times of a list.\<close>

fun gaps :: "int list \<Rightarrow> int list" where
  "gaps [] = []"
| "gaps [x] = []"
| "gaps (x # y # xs) = (y - x) # gaps (y # xs)"

section \<open>Invariants of the runs\<close>

text \<open>
  The set-ups the timing properties are about. \<open>plain\<close>: a numeric \<open>wait\<close> of
  \<open>wt\<close> and the default options. \<open>capped\<close>: a positive numeric \<open>wait\<close> of
  \<open>wt\<close>, a \<open>maxWait\<close> that the set-up code has turned into \<open>m\<close>, and the
  trailing edge on.
\<close>

definition plain :: "config \<Rightarrow> int \<Rightarrow> bool" where
  "plain cfg wt =
    (\<not> useRAF cfg \<and> wait cfg = wt \<and> 0 \<le> wt \<and> \<not> maxing cfg \<and> \<not> leading cfg \<and> trailing cfg)"

definition capped :: "config \<Rightarrow> int \<Rightarrow> int \<Rightarrow> bool" where
  "capped cfg wt m =
    (\<not> useRAF cfg \<and> wait cfg = wt \<and> 0 < wt \<and> maxing cfg \<and> maxWait cfg = Some m \<and>
     wt \<le> m \<and> trailing cfg)"

text \<open>
  Inside a burst under \<open>plain\<close>, after the call at time \<open>s\<close> with arguments
  \<open>a\<close>: nothing has been invoked since the burst began with the record \<open>log\<close>, and
  exactly one timer is live, the one of the handle, due no later than \<open>s + wt\<close>.
  A call recorded at time \<open>0\<close> reads as no call to \<open>shouldInvoke\<close>; the timer is
  then due exactly at \<open>wt\<close>, where that makes no difference.
\<close>

definition armed ::
  "int \<Rightarrow> int \<Rightarrow> 'a list \<Rightarrow> (int \<times> 'a list) list \<Rightarrow> ('a, 'r) hook \<Rightarrow> bool" where
  "armed wt s a log w =
    (mounted w \<and> lastCallTime w = Some s \<and> 0 \<le> s \<and> lastArgs w = Some a \<and> invoked w = log \<and>
     (case timers w of
        [tm] \<Rightarrow> timerId w = Some (tm_id tm) \<and> s \<le> due tm \<and> due tm \<le> s + wt \<and>
                (s = 0 \<longrightarrow> due tm = wt)
      | _ \<Rightarrow> False))"

text \<open>
  Inside a stream of calls under \<open>capped\<close>, at time \<open>x\<close>, the last call having
  been at time \<open>s\<close> and the first at \<open>s0\<close>: \<open>lastInvokeTime\<close> is the time of the
  last invocation (or \<open>s0\<close> before the first), the last call came less than \<open>m\<close>
  after it, held arguments have a timer in the handle, no live timer is overdue, a
  handle that is set has a live timer due within \<open>ceiling_of wt m\<close> of the last
  invocation, and the invocations so far are at most \<open>ceiling_of wt m\<close> apart.
  \<open>ceiling_of wt m\<close> is the larger of \<open>m\<close> and \<open>2 * wt - 1\<close>: a timer that
  \<open>timerExpired\<close> re-arms is due by \<open>m\<close> after the last invocation, and the
  timer that the first call after an invocation starts is due a full \<open>wt\<close> after
  that call, which comes less than \<open>wt\<close> after the invocation.
\<close>

definition ceiling_of :: "int \<Rightarrow> int \<Rightarrow> int" where
  "ceiling_of wt m = max m (2 * wt - 1)"

definition steady :: "int \<Rightarrow> int \<Rightarrow> int \<Rightarrow> int \<Rightarrow> int \<Rightarrow> ('a, 'r) hook \<Rightarrow> bool" where
  "steady wt m s0 s x w =
    (mounted w \<and> lastCallTime w = Some s \<and> 0 \<le> s \<and> s \<le> x \<and> lastInvokeTime w \<le> x \<and>
     s - lastInvokeTime w < m \<and>
     (\<forall>tm \<in> set (timers w). x \<le> due tm) \<and>
     (timerId w = None \<longrightarrow> lastArgs w = None) \<and>
     (lastArgs w = None \<longrightarrow> s \<le> lastInvokeTime w) \<and>
     (s = 0 \<longrightarrow> timerId w \<noteq> None \<and> (\<forall>tm \<in> set (timers w). wt \<le> due tm)) \<and>
     (timerId w \<noteq> None \<longrightarrow>
        (\<exists>tm \<in> set (timers w). due tm \<le> lastInvokeTime w + ceiling_of wt m)) \<and>
     last (s0 # map fst (invoked w)) = lastInvokeTime w \<and>
     list_all (\<lambda>g. g \<le> ceiling_of wt m) (gaps (s0 # map fst (invoked w))))"

text \<open>
  What is left to run before a horizon: for every live timer, the milliseconds from its
  due time to the horizon. Each callback lowers it when timers are re-armed later than
  they ran.
\<close>

definition pot :: "int \<Rightarrow> timer list \<Rightarrow> nat" where
  "pot h tms = sum_list (map (\<lambda>tm. nat (h + 1 - due tm)) tms)"

section \<open>Unfolding the operations\<close>

lemmas op_defs = debounced_def shouldInvoke_def startTimer_def invokeFunc_def trailingEdge_def
  timerExpired_def remainingWait_def cancel_def flush_def pending_def cancelTimer_def
  not_set_def num_of_def unmount_def fresh_def

lemmas cfg_defs = configure_def falsy_def or_zero_def to_number_def

section \<open>The host's next timer\<close>

lemma due_Timer [simp]:
  "due (Timer h (Timeout d) t) = t + max 0 d"
  "due (Timer h AnimationFrame t) = t"
  by (simp_all add: due_def)

lemma earliest_None [simp]: "earliest tms = None \<longleftrightarrow> tms = []"
  by (induction tms) (auto split: option.splits)

lemma earliest_Some:
  "earliest tms = Some tm \<Longrightarrow> tm \<in> set tms \<and> (\<forall>x \<in> set tms. due tm \<le> due x)"
  by (induction tms arbitrary: tm) (fastforce split: option.splits if_splits)+

lemma next_due_None: "next_due h tms = None \<longleftrightarrow> (\<forall>tm \<in> set tms. h < due tm)"
  by (auto simp: next_due_def filter_empty_conv)

lemma next_due_Some:
  assumes "next_due h tms = Some tm"
  shows "tm \<in> set tms" "due tm \<le> h" "\<forall>x \<in> set tms. due tm \<le> due x"
proof -
  from assms have e: "tm \<in> set (filter (\<lambda>tm. due tm \<le> h) tms)"
    "\<forall>x \<in> set (filter (\<lambda>tm. due tm \<le> h) tms). due tm \<le> due x"
    using earliest_Some unfolding next_due_def by blast+
  from e(1) show "tm \<in> set tms" "due tm \<le> h" by auto
  with e(2) show "\<forall>x \<in> set tms. due tm \<le> due x" by fastforce
qed

lemma next_due_single: "next_due h [tm] = (if due tm \<le> h then Some tm else None)"
  by (simp add: next_due_def)

lemma advance_none_due:
  "\<forall>tm \<in> set (timers w). h < due tm \<Longrightarrow> advance cfg f n h w = Some w"
  by (cases n) (simp_all add: next_due_None [THEN iffD2])

lemma configure_number:
  "\<not> useRAF (configure hw (Some (Num wt)) opts)" "wait (configure hw (Some (Num wt)) opts) = wt"
  by (simp_all add: cfg_defs Let_def)

lemma configure_raf_wait: "useRAF (configure hw wa opts) \<Longrightarrow> wait (configure hw wa opts) = 0"
  by (auto simp: cfg_defs Let_def split: option.splits jsnum.splits)

section \<open>The decision to invoke\<close>

text \<open>
  Away from a recorded call time of \<open>0\<close>, \<open>shouldInvoke\<close> is the condition of the
  specification.
\<close>

lemma shouldInvoke_agrees:
  "lastCallTime w \<noteq> Some 0 \<Longrightarrow> maxing cfg \<longrightarrow> maxWait cfg \<noteq> None \<Longrightarrow>
   shouldInvoke cfg now w = shouldInvoke_spec cfg now w"
  by (auto simp: shouldInvoke_def shouldInvoke_spec_def not_set_def num_of_def Let_def
           split: option.splits)

text \<open>
  C3: \<open>shouldInvoke(now)\<close> is true exactly when the controller is enabled and one of
  (a) to (d) holds. The code tests (a) with \<open>!lastCallTime.current\<close>, which is also
  true for a call recorded at clock reading \<open>0\<close>. With \<open>wait = 100\<close> and no
  \<open>maxWait\<close>, after a call at time \<open>0\<close> the code answers true at time \<open>50\<close>,
  where none of (a) to (d) holds.
\<close>

theorem shouldInvoke_call_time_zero:
  "shouldInvoke (configure False (Some (Num 100)) None) 50
     (snd (debounced (configure False (Some (Num 100)) None) length 0 [True] fresh)) \<and>
   \<not> shouldInvoke_spec (configure False (Some (Num 100)) None) 50
     (snd (debounced (configure False (Some (Num 100)) None) length 0 [True] fresh))"
  by (simp add: op_defs cfg_defs shouldInvoke_spec_def Let_def)

section \<open>Calls and timers after the hook is unmounted\<close>

lemma debounced_unmounted:
  "\<not> mounted w \<Longrightarrow>
   fst (debounced cfg f now args w) = result w \<and>
   invoked (snd (debounced cfg f now args w)) = invoked w \<and>
   timers (snd (debounced cfg f now args w)) =
     (if timerId w = None
      then timers w @ [Timer (nextId w) (if useRAF cfg then AnimationFrame else Timeout (wait cfg)) now]
      else timers w)"
  by (simp add: op_defs Let_def)

text \<open>
  C4: a call made after the controller is disabled returns the cached result, invokes
  nothing and schedules no timer. The code returns the cached result and invokes
  nothing, but with no timer in the handle it reaches the \<open>startTimer\<close> of line 151:
  on a fresh hook that was unmounted, a call at time \<open>1000\<close> leaves a
  \<open>setTimeout\<close> of \<open>100\<close> ms live.
\<close>

theorem call_after_unmount_schedules:
  "debounced (configure False (Some (Num 100)) None) length 1000 [True] (unmount fresh) =
     (None, (unmount fresh)\<lparr>lastCallTime := Some 1000, timerId := Some 1, lastArgs := Some [True],
               timers := [Timer 1 (Timeout 100) 1000], nextId := 2\<rparr>)"
  by (simp add: op_defs cfg_defs Let_def)

text \<open>
  Such a timer never comes to rest. Its callback finds \<open>shouldInvoke\<close> false and
  re-arms, and once \<open>wait\<close> has passed since the last call the new delay is zero or
  less: on a host that runs timers when they are due, no number of callbacks empties
  the list of timers due.
\<close>

lemma unmounted_timer_chain:
  assumes cfg: "\<not> useRAF cfg" "\<not> maxing cfg"
  shows "\<not> mounted w \<Longrightarrow> tm \<in> set (timers w) \<Longrightarrow> due tm \<le> h \<Longrightarrow>
         num_of (lastCallTime w) + wait cfg \<le> h \<Longrightarrow> advance cfg f n h w = None"
proof (induction n arbitrary: w tm)
  case 0
  then have "next_due h (timers w) \<noteq> None"
    unfolding next_due_None by fastforce
  then show ?case by auto
next
  case (Suc n)
  from Suc.prems have "next_due h (timers w) \<noteq> None"
    unfolding next_due_None by fastforce
  then obtain t where t: "next_due h (timers w) = Some t" by auto
  note nd = next_due_Some [OF t]
  define r where "r = wait cfg - (due t - num_of (lastCallTime w))"
  define new where "new = Timer (nextId w) (Timeout r) (due t)"
  have w': "fire cfg f t w =
      w\<lparr>timers := filter (\<lambda>x. tm_id x \<noteq> tm_id t) (timers w) @ [new],
         timerId := Some (nextId w), nextId := Suc (nextId w)\<rparr>"
    using Suc.prems(1) cfg
    by (simp add: fire_def timerExpired_def shouldInvoke_def startTimer_def remainingWait_def
          new_def r_def Let_def)
  have "due new \<le> h"
    using nd(2) Suc.prems(4) by (simp add: new_def r_def)
  moreover have "new \<in> set (timers (fire cfg f t w))" "\<not> mounted (fire cfg f t w)"
    "lastCallTime (fire cfg f t w) = lastCallTime w"
    using Suc.prems(1) by (simp_all add: w')
  ultimately have "advance cfg f n h (fire cfg f t w) = None"
    using Suc.IH [of "fire cfg f t w" new] Suc.prems(4) by simp
  then show ?case using t by simp
qed

section \<open>The delay of a re-armed timer\<close>

lemma timerExpired_rearms:
  "\<not> shouldInvoke cfg now w \<Longrightarrow>
   timerExpired cfg f now w = (None, startTimer cfg now (remainingWait cfg now w) w) \<and>
   remainingWait cfg now w =
     (if maxing cfg
      then min (wait cfg - (now - num_of (lastCallTime w)))
               (num_of (maxWait cfg) - (now - lastInvokeTime w))
      else wait cfg - (now - num_of (lastCallTime w)))"
  by (simp add: timerExpired_def remainingWait_def Let_def)

lemma remainingWait_positive:
  "mounted w \<Longrightarrow> \<not> shouldInvoke cfg now w \<Longrightarrow> 0 < remainingWait cfg now w"
  by (auto simp: shouldInvoke_def remainingWait_def Let_def)

text \<open>
  C9: when the timer callback runs and \<open>shouldInvoke\<close> is false, the timer is
  re-armed with the stated delay, and that delay is not negative. The formula is the
  code's, and the delay is positive while the hook is mounted (the two lemmas above).
  After unmounting \<open>shouldInvoke\<close> is false whatever the times, and the same formula
  goes negative: with \<open>wait = 100\<close>, a call at \<open>1000\<close>, then the unmount, a callback
  at \<open>1101\<close> re-arms with delay \<open>-1\<close>.
\<close>

theorem rearm_after_unmount_negative:
  "\<not> shouldInvoke (configure False (Some (Num 100)) None) 1101
       (unmount (snd (debounced (configure False (Some (Num 100)) None) length 1000 [True] fresh))) \<and>
   remainingWait (configure False (Some (Num 100)) None) 1101
       (unmount (snd (debounced (configure False (Some (Num 100)) None) length 1000 [True] fresh))) = - 1 \<and>
   timers (snd (timerExpired (configure False (Some (Num 100)) None) length 1101
       ((unmount (snd (debounced (configure False (Some (Num 100)) None) length 1000 [True] fresh)))
          \<lparr>timers := []\<rparr>))) = [Timer 2 (Timeout (- 1)) 1101]"
  by (simp add: op_defs cfg_defs Let_def)

section \<open>How many timers are live\<close>

lemma startTimer_raf_cancels:
  "useRAF cfg \<Longrightarrow> timerId w = Some h \<Longrightarrow>
   h \<notin> tm_id ` set (butlast (timers (startTimer cfg now d w)))"
  by (auto simp: startTimer_def cancelTimer_def Let_def)

text \<open>
  C5: at most one timer is scheduled at any time, because scheduling a new one first
  cancels the one that is active. \<open>startTimer\<close> cancels the old handle only on the
  animation-frame path (the lemma above); on the \<open>setTimeout\<close> path it overwrites
  the handle. With \<open>wait = 100\<close> and \<open>maxWait = 150\<close>, a call at \<open>1000\<close> and a call
  at \<open>1200\<close> with no callback run in between (a synchronous loop) take the branch of
  lines 144 to 148 and leave two timers live.
\<close>

theorem two_live_timers:
  "timers (snd (debounced
      (configure False (Some (Num 100))
         (Some \<lparr>opt_maxWait = Some (Num 150), opt_leading = None, opt_trailing = None\<rparr>))
      length 1200 [False]
      (snd (debounced
        (configure False (Some (Num 100))
           (Some \<lparr>opt_maxWait = Some (Num 150), opt_leading = None, opt_trailing = None\<rparr>))
        length 1000 [True] fresh)))) =
   [Timer 1 (Timeout 100) 1000, Timer 2 (Timeout 100) 1200]"
  by (simp add: op_defs cfg_defs Let_def)

text \<open>
  The same happens when every timer is run on time: with \<open>wait = maxWait = 100\<close>
  and calls at \<open>1000\<close>, \<open>1090\<close>, \<open>1180\<close> and \<open>1270\<close>, the timer started
  by the call at \<open>1180\<close> is not cleared when the call at \<open>1270\<close> starts another.
\<close>

lemma timers_pile_up_on_time:
  "map_option timers
     (run (configure False (Some (Num 100))
        (Some \<lparr>opt_maxWait = Some (Num 100), opt_leading = None, opt_trailing = None\<rparr>))
        length 2 [(1000, [1]), (1090, [2]), (1180, [3]), (1270, [4 :: nat])] fresh) =
     Some [Timer 2 (Timeout 100) 1180, Timer 3 (Timeout 100) 1270]"
  by (simp add: op_defs cfg_defs next_due_def fire_def Let_def eval_nat_numeral)

section \<open>Which scheduling primitive is used\<close>

text \<open>
  C6, as stated: with \<open>wait == 0\<close> and a window, timers are requested through
  \<open>requestAnimationFrame\<close>. They are not: an explicit \<open>0\<close> bypasses it, as the
  comment at line 34 says.
\<close>

theorem explicit_zero_wait_uses_setTimeout:
  "\<not> useRAF (configure True (Some (Num 0)) None) \<and>
   timers (snd (debounced (configure True (Some (Num 0)) None) length 1000 [True] fresh)) =
     [Timer 1 (Timeout 0) 1000]"
  by (simp add: op_defs cfg_defs Let_def)

text \<open>
  C6, amended: the frame-synchronised primitive is used exactly when \<open>wait\<close> is left
  out (\<open>undefined\<close>, or \<open>NaN\<close>) and there is a window; \<open>wait\<close> is then \<open>0\<close> and the
  delay is ignored. An explicit \<open>wait\<close> of \<open>0\<close> schedules through \<open>setTimeout\<close>
  with delay \<open>0\<close>. Either way, with a \<open>wait\<close> of \<open>0\<close> and \<open>leading\<close> off, a call on
  an idle hook invokes nothing at once and schedules one timer.
\<close>

theorem raf_when_wait_omitted:
  "(useRAF (configure hw wa opts) \<longleftrightarrow> hw \<and> (wa = None \<or> wa = Some NaN)) \<and>
   (useRAF (configure hw wa opts) \<longrightarrow> wait (configure hw wa opts) = 0) \<and>
   (idle w \<and> wait (configure hw wa opts) = 0 \<and> \<not> leading (configure hw wa opts) \<longrightarrow>
      fst (debounced (configure hw wa opts) f now args w) = result w \<and>
      invoked (snd (debounced (configure hw wa opts) f now args w)) = invoked w \<and>
      timers (snd (debounced (configure hw wa opts) f now args w)) =
        [Timer (nextId w)
           (if hw \<and> (wa = None \<or> wa = Some NaN) then AnimationFrame else Timeout 0) now])"
proof -
  have raf: "useRAF (configure hw wa opts) \<longleftrightarrow> hw \<and> (wa = None \<or> wa = Some NaN)"
    by (auto simp: cfg_defs Let_def split: option.splits jsnum.splits)
  have zero: "useRAF (configure hw wa opts) \<longrightarrow> wait (configure hw wa opts) = 0"
    by (auto simp: cfg_defs Let_def split: option.splits jsnum.splits)
  have call: "fst (debounced (configure hw wa opts) f now args w) = result w \<and>
      invoked (snd (debounced (configure hw wa opts) f now args w)) = invoked w \<and>
      timers (snd (debounced (configure hw wa opts) f now args w)) =
        [Timer (nextId w)
           (if hw \<and> (wa = None \<or> wa = Some NaN) then AnimationFrame else Timeout 0) now]"
    if "idle w" "wait (configure hw wa opts) = 0" "\<not> leading (configure hw wa opts)"
    using that raf
    by (simp add: idle_def debounced_def startTimer_def cancelTimer_def num_of_def Let_def)
  from raf zero call show ?thesis by blast
qed

theorem raf_when_wait_omitted_witness:
  "useRAF (configure True None None) \<and>
   \<not> useRAF (configure True (Some (Num 0)) None) \<and>
   wait (configure True None None) = 0 \<and>
   idle (fresh :: (bool, nat) hook) \<and>
   invoked (snd (debounced (configure True None None) length 1000 [True] fresh)) = [] \<and>
   timers (snd (debounced (configure True None None) length 1000 [True] fresh)) =
     [Timer 1 AnimationFrame 1000] \<and>
   timers (snd (debounced (configure True (Some (Num 0)) None) length 1000 [True] fresh)) =
     [Timer 1 (Timeout 0) 1000]"
proof -
  have i: "idle (fresh :: (bool, nat) hook)"
    by (simp add: idle_def fresh_def)
  have w0: "wait (configure True None None) = 0" "wait (configure True (Some (Num 0)) None) = 0"
    by (simp_all add: cfg_defs)
  have l0: "\<not> leading (configure True None None)" "\<not> leading (configure True (Some (Num 0)) None)"
    by (simp_all add: cfg_defs)
  show ?thesis
    using i w0 l0
      raf_when_wait_omitted [of True None None "fresh :: (bool, nat) hook" length 1000 "[True]"]
      raf_when_wait_omitted [of True "Some (Num 0)" None "fresh :: (bool, nat) hook" length 1000 "[True]"]
    by (simp add: fresh_def)
qed

section \<open>Flush and cancel\<close>

text \<open>
  C7: with no timer in the handle, \<open>flush\<close> returns \<open>lastResult\<close> and changes
  nothing; with a timer in the handle it is the trailing edge at the current time:
  the handle and the held arguments are cleared, and \<open>func\<close> is called with the held
  arguments, its result stored and returned, when \<open>trailing\<close> is on and arguments are
  held, and otherwise the cached result is returned and nothing is invoked.
\<close>

theorem flush_cases:
  "(timerId w = None \<longrightarrow> flush cfg f now w = (result w, w)) \<and>
   (timerId w \<noteq> None \<longrightarrow>
      flush cfg f now w = trailingEdge cfg f now w \<and>
      timerId (snd (flush cfg f now w)) = None \<and>
      lastArgs (snd (flush cfg f now w)) = None \<and>
      (case lastArgs w of
         Some a \<Rightarrow>
           if trailing cfg
           then fst (flush cfg f now w) = Some (f a) \<and>
                result (snd (flush cfg f now w)) = Some (f a) \<and>
                lastInvokeTime (snd (flush cfg f now w)) = now \<and>
                invoked (snd (flush cfg f now w)) = invoked w @ [(now, a)]
           else fst (flush cfg f now w) = result w \<and>
                result (snd (flush cfg f now w)) = result w \<and>
                invoked (snd (flush cfg f now w)) = invoked w
       | None \<Rightarrow>
           fst (flush cfg f now w) = result w \<and>
           result (snd (flush cfg f now w)) = result w \<and>
           invoked (snd (flush cfg f now w)) = invoked w))"
  by (simp add: flush_def trailingEdge_def invokeFunc_def Let_def split: option.splits)

theorem flush_cases_witness:
  "timerId (fresh :: (bool, nat) hook) = None \<and>
   flush (configure False (Some (Num 100)) None) length 1010 (fresh :: (bool, nat) hook) =
     (None, fresh) \<and>
   timerId (snd (debounced (configure False (Some (Num 100)) None) length 1000 [True] fresh)) \<noteq> None \<and>
   fst (flush (configure False (Some (Num 100)) None) length 1010
          (snd (debounced (configure False (Some (Num 100)) None) length 1000 [True] fresh))) = Some 1 \<and>
   invoked (snd (flush (configure False (Some (Num 100)) None) length 1010
          (snd (debounced (configure False (Some (Num 100)) None) length 1000 [True] fresh)))) =
     [(1010, [True])]"
proof -
  define cfg where "cfg = configure False (Some (Num 100)) None"
  define w1 :: "(bool, nat) hook" where "w1 = snd (debounced cfg length 1000 [True] fresh)"
  have a: "timerId (fresh :: (bool, nat) hook) = None" "result (fresh :: (bool, nat) hook) = None"
    by (simp_all add: fresh_def)
  have b: "timerId w1 \<noteq> None"
    by (simp add: w1_def cfg_def op_defs cfg_defs Let_def)
  have c: "lastArgs w1 = Some [True]" "invoked w1 = []" "trailing cfg"
    by (simp_all add: w1_def cfg_def op_defs cfg_defs Let_def)
  from a flush_cases [of "fresh :: (bool, nat) hook" cfg length 1010]
  have f1: "flush cfg length 1010 (fresh :: (bool, nat) hook) = (None, fresh)"
    by simp
  from b flush_cases [of w1 cfg length 1010]
  have "case lastArgs w1 of
         Some a \<Rightarrow>
           if trailing cfg
           then fst (flush cfg length 1010 w1) = Some (length a) \<and>
                result (snd (flush cfg length 1010 w1)) = Some (length a) \<and>
                lastInvokeTime (snd (flush cfg length 1010 w1)) = 1010 \<and>
                invoked (snd (flush cfg length 1010 w1)) = invoked w1 @ [(1010, a)]
           else fst (flush cfg length 1010 w1) = result w1 \<and>
                result (snd (flush cfg length 1010 w1)) = result w1 \<and>
                invoked (snd (flush cfg length 1010 w1)) = invoked w1
       | None \<Rightarrow>
           fst (flush cfg length 1010 w1) = result w1 \<and>
           result (snd (flush cfg length 1010 w1)) = result w1 \<and>
           invoked (snd (flush cfg length 1010 w1)) = invoked w1"
    by blast
  with c have f2: "fst (flush cfg length 1010 w1) = Some 1 \<and>
                   invoked (snd (flush cfg length 1010 w1)) = [(1010, [True])]"
    by simp
  from a b f1 f2 show ?thesis
    unfolding w1_def cfg_def by blast
qed

text \<open>
  C8: \<open>cancel\<close> takes the timer of the handle off the host's list, sets
  \<open>lastInvokeTime\<close> to \<open>0\<close>, clears the held arguments, the call time and the
  handle, and keeps \<open>lastResult\<close>; it invokes nothing. Afterwards \<open>pending\<close> is
  false and \<open>flush\<close> returns the result from before the cancel and changes nothing.
\<close>

theorem cancel_effects:
  "(\<forall>h. timerId w = Some h \<longrightarrow> h \<notin> tm_id ` set (timers (cancel cfg w))) \<and>
   set (timers (cancel cfg w)) \<subseteq> set (timers w) \<and>
   lastInvokeTime (cancel cfg w) = 0 \<and>
   lastArgs (cancel cfg w) = None \<and>
   lastCallTime (cancel cfg w) = None \<and>
   timerId (cancel cfg w) = None \<and>
   result (cancel cfg w) = result w \<and>
   invoked (cancel cfg w) = invoked w \<and>
   \<not> pending (cancel cfg w) \<and>
   flush cfg f now (cancel cfg w) = (result w, cancel cfg w)"
  by (auto simp: cancel_def cancelTimer_def pending_def flush_def Let_def)

theorem cancel_effects_witness:
  "timerId (snd (debounced (configure False (Some (Num 100)) None) length 1000 [True]
      (fresh :: (bool, nat) hook))) = Some 1 \<and>
   1 \<notin> tm_id ` set (timers (cancel (configure False (Some (Num 100)) None)
      (snd (debounced (configure False (Some (Num 100)) None) length 1000 [True]
         (fresh :: (bool, nat) hook))))) \<and>
   \<not> pending (cancel (configure False (Some (Num 100)) None)
      (snd (debounced (configure False (Some (Num 100)) None) length 1000 [True]
         (fresh :: (bool, nat) hook))))"
proof -
  have a: "timerId (snd (debounced (configure False (Some (Num 100)) None) length 1000 [True]
      (fresh :: (bool, nat) hook))) = Some 1"
    by (simp add: op_defs cfg_defs Let_def)
  show ?thesis
    using a cancel_effects [of "snd (debounced (configure False (Some (Num 100)) None) length 1000
      [True] (fresh :: (bool, nat) hook))" "configure False (Some (Num 100)) None" length 1010]
    by blast
qed

section \<open>A burst of calls on the trailing edge\<close>

lemma armedD:
  assumes "armed wt s a log w"
  obtains tm where "timers w = [tm]" "timerId w = Some (tm_id tm)" "s \<le> due tm"
    "due tm \<le> s + wt" "s = 0 \<longrightarrow> due tm = wt"
    "mounted w" "lastCallTime w = Some s" "0 \<le> s" "lastArgs w = Some a" "invoked w = log"
  using assms unfolding armed_def by (auto split: list.splits)

lemma first_call_arms:
  assumes "plain cfg wt" "idle w" "0 \<le> t"
  shows "armed wt t a (invoked w) (snd (debounced cfg f t a w))"
  using assms
  by (simp add: plain_def idle_def armed_def debounced_def startTimer_def num_of_def Let_def)

text \<open>The timer runs before \<open>s + wt\<close>: it is re-armed for \<open>s + wt\<close>.\<close>

lemma fire_early:
  assumes cfg: "plain cfg wt" and a: "armed wt s a log w"
    and tm: "timers w = [tm]" and early: "due tm < s + wt"
  shows "armed wt s a log (fire cfg f tm w) \<and>
         (\<forall>x \<in> set (timers (fire cfg f tm w)). due x = s + wt)"
proof -
  from a tm have f: "mounted w" "lastCallTime w = Some s" "lastArgs w = Some a" "invoked w = log"
    "s \<le> due tm" "0 \<le> s" "s = 0 \<longrightarrow> due tm = wt"
    by (auto elim!: armedD)
  from f early have s: "0 < s" by (cases "s = 0") simp_all
  have no: "\<not> shouldInvoke cfg (due tm) (w\<lparr>timers := []\<rparr>)"
    using cfg f s early by (simp add: plain_def shouldInvoke_def not_set_def num_of_def Let_def)
  have r: "remainingWait cfg (due tm) (w\<lparr>timers := []\<rparr>) = s + wt - due tm"
    using cfg f by (simp add: plain_def remainingWait_def num_of_def Let_def)
  have "fire cfg f tm w = startTimer cfg (due tm) (s + wt - due tm) (w\<lparr>timers := []\<rparr>)"
    using no r tm by (simp add: fire_def timerExpired_def)
  then show ?thesis
    using cfg f s early
    by (simp add: plain_def armed_def startTimer_def Let_def)
qed

text \<open>The timer runs at \<open>s + wt\<close>: the held arguments are invoked.\<close>

lemma fire_final:
  assumes cfg: "plain cfg wt" and a: "armed wt s a log w"
    and tm: "timers w = [tm]" and final: "due tm = s + wt"
  shows "fire cfg f tm w =
           w\<lparr>timerId := None, lastArgs := None, lastInvokeTime := s + wt, result := Some (f a),
              timers := [], invoked := log @ [(s + wt, a)]\<rparr>"
proof -
  from a tm have f: "mounted w" "lastCallTime w = Some s" "lastArgs w = Some a" "invoked w = log"
    by (auto elim!: armedD)
  have yes: "shouldInvoke cfg (due tm) (w\<lparr>timers := []\<rparr>)"
    using cfg f final by (simp add: plain_def shouldInvoke_def not_set_def num_of_def Let_def)
  then show ?thesis
    using cfg f tm final
    by (simp add: plain_def fire_def timerExpired_def trailingEdge_def invokeFunc_def Let_def)
qed

lemma advance_between:
  assumes cfg: "plain cfg wt" and a: "armed wt s a log w"
    and h: "h < s + wt" and fuel: "0 < n"
  shows "\<exists>w'. advance cfg f n h w = Some w' \<and> armed wt s a log w' \<and>
              (\<forall>x \<in> set (timers w'). h < due x)"
proof -
  from a obtain tm where tm: "timers w = [tm]" by (auto elim!: armedD)
  from fuel obtain k where n: "n = Suc k" by (cases n) auto
  show ?thesis
  proof (cases "due tm \<le> h")
    case False
    then have "\<forall>x \<in> set (timers w). h < due x" using tm by simp
    then show ?thesis using a advance_none_due by blast
  next
    case True
    with h have early: "due tm < s + wt" by simp
    from True tm have nd: "next_due h (timers w) = Some tm" by (simp add: next_due_single)
    from fire_early [OF cfg a tm early, of f]
    have a': "armed wt s a log (fire cfg f tm w)"
      and d': "\<forall>x \<in> set (timers (fire cfg f tm w)). due x = s + wt" by blast+
    from d' h have later: "\<forall>x \<in> set (timers (fire cfg f tm w)). h < due x" by simp
    have "advance cfg f n h w = advance cfg f k h (fire cfg f tm w)"
      using nd n by simp
    also have "\<dots> = Some (fire cfg f tm w)"
      using later by (rule advance_none_due)
    finally show ?thesis using a' later by blast
  qed
qed

lemma call_in_burst:
  assumes cfg: "plain cfg wt" and a: "armed wt s a log w"
    and t: "s \<le> t" "t - s < wt" and later: "\<forall>x \<in> set (timers w). t < due x"
  shows "armed wt t b log (snd (debounced cfg f t b w))"
proof -
  from a obtain tm where f: "timers w = [tm]" "timerId w = Some (tm_id tm)" "due tm \<le> s + wt"
    "mounted w" "lastCallTime w = Some s" "invoked w = log" "0 \<le> s" "s = 0 \<longrightarrow> due tm = wt"
    by (auto elim!: armedD)
  from later f have "t < due tm" by simp
  then show ?thesis
    using cfg f t
    by (auto simp: plain_def debounced_def armed_def Let_def)
qed

lemma run_followers:
  assumes cfg: "plain cfg wt" and fuel: "0 < n"
  shows "armed wt s a log w \<Longrightarrow> follows wt s cs \<Longrightarrow>
         \<exists>w'. run cfg f n cs w = Some w' \<and>
              armed wt (fst (last ((s, a) # cs))) (snd (last ((s, a) # cs))) log w'"
proof (induction cs arbitrary: s a w)
  case Nil
  then show ?case by simp
next
  case (Cons c cs)
  obtain t b where c: "c = (t, b)" by (cases c)
  from Cons.prems c have t: "s \<le> t" "t - s < wt" and rest: "follows wt t cs" by simp_all
  from t have h: "t < s + wt" by simp
  from advance_between [OF cfg Cons.prems(1) h fuel, of f]
  obtain w1 where w1: "advance cfg f n t w = Some w1" "armed wt s a log w1"
    "\<forall>x \<in> set (timers w1). t < due x" by blast
  from call_in_burst [OF cfg w1(2) t w1(3), of b f]
  have a2: "armed wt t b log (snd (debounced cfg f t b w1))" .
  from Cons.IH [OF a2 rest]
  obtain w' where "run cfg f n cs (snd (debounced cfg f t b w1)) = Some w'"
    "armed wt (fst (last ((t, b) # cs))) (snd (last ((t, b) # cs))) log w'" by blast
  then show ?case using w1(1) c by auto
qed

lemma advance_to_end:
  assumes cfg: "plain cfg wt" and a: "armed wt s a log w"
    and h: "s + wt \<le> h" and fuel: "2 \<le> n"
  shows "\<exists>w'. advance cfg f n h w = Some w' \<and> invoked w' = log @ [(s + wt, a)] \<and>
              result w' = Some (f a) \<and> timers w' = [] \<and> timerId w' = None \<and> lastArgs w' = None"
proof -
  from fuel obtain k where n: "n = Suc (Suc k)"
    by (cases n; cases "n - 1") auto
  have last_step: "\<exists>w'. advance cfg f (Suc j) h v = Some w' \<and> invoked w' = log @ [(s + wt, a)] \<and>
              result w' = Some (f a) \<and> timers w' = [] \<and> timerId w' = None \<and> lastArgs w' = None"
    if v: "armed wt s a log v" "timers v = [tm]" "due tm = s + wt" for v tm j
  proof -
    from v h have nd: "next_due h (timers v) = Some tm" by (simp add: next_due_single)
    have "advance cfg f (Suc j) h v = advance cfg f j h (fire cfg f tm v)"
      using nd by simp
    also have "\<dots> = Some (fire cfg f tm v)"
      by (rule advance_none_due) (simp add: fire_final [OF cfg v])
    finally show ?thesis
      by (simp add: fire_final [OF cfg v])
  qed
  from a obtain tm where tm: "timers w = [tm]" "due tm \<le> s + wt" by (auto elim!: armedD)
  show ?thesis
  proof (cases "due tm = s + wt")
    case True
    from last_step [OF a tm(1) True] show ?thesis unfolding n .
  next
    case False
    with tm have early: "due tm < s + wt" by simp
    with h tm have nd: "next_due h (timers w) = Some tm" by (simp add: next_due_single)
    from fire_early [OF cfg a tm(1) early, of f]
    have a': "armed wt s a log (fire cfg f tm w)"
      and d': "\<forall>x \<in> set (timers (fire cfg f tm w)). due x = s + wt" by blast+
    from a' obtain tm' where tm': "timers (fire cfg f tm w) = [tm']" by (auto elim!: armedD)
    with d' have "due tm' = s + wt" by simp
    from last_step [OF a' tm' this, of k]
    show ?thesis using nd n by simp
  qed
qed

text \<open>
  C1: a burst of one or more calls, each less than \<open>wait\<close> after the one before, on
  an idle hook with the default options (\<open>leading\<close> off, \<open>trailing\<close> on, no
  \<open>maxWait\<close>) and a numeric \<open>wait\<close>, the host running every timer when it is due
  and the clock not negative: once the timers have run, \<open>func\<close> has been invoked
  exactly once more, at \<open>wait\<close> after the last call and with the arguments of the
  last call, its result is the cached one, and no timer is left.
\<close>

theorem trailing_burst:
  assumes cfg: "cfg = configure hw (Some (Num wt)) opts"
    and dflt: "\<not> leading cfg" "trailing cfg" "\<not> maxing cfg"
    and wt: "0 \<le> wt"
    and calls: "burst wt calls" "0 \<le> fst (hd calls)"
    and start: "idle w"
    and fuel: "2 \<le> fuel"
    and horizon: "fst (last calls) + wt \<le> horizon"
  shows "\<exists>w'. simulate cfg f fuel calls horizon w = Some w' \<and>
              invoked w' = invoked w @ [(fst (last calls) + wt, snd (last calls))] \<and>
              result w' = Some (f (snd (last calls))) \<and>
              timers w' = [] \<and> \<not> pending w'"
proof -
  have p: "plain cfg wt"
    using cfg dflt wt by (simp add: plain_def configure_number)
  from calls(1) obtain t a cs where c: "calls = (t, a) # cs" "follows wt t cs"
    by (auto simp: burst_def split: list.splits)
  from calls(2) c have t: "0 \<le> t" by simp
  from fuel have n: "0 < fuel" by simp
  from start have "advance cfg f fuel t w = Some w"
    by (intro advance_none_due) (simp add: idle_def)
  then have r0: "run cfg f fuel calls w = run cfg f fuel cs (snd (debounced cfg f t a w))"
    using c by simp
  from run_followers [OF p n first_call_arms [OF p start t, where a = a and f = f] c(2)]
  obtain w1 where w1: "run cfg f fuel cs (snd (debounced cfg f t a w)) = Some w1"
    "armed wt (fst (last calls)) (snd (last calls)) (invoked w) w1"
    unfolding c by blast
  from advance_to_end [OF p w1(2) horizon fuel, of f]
  obtain w' where "advance cfg f fuel horizon w1 = Some w'"
    "invoked w' = invoked w @ [(fst (last calls) + wt, snd (last calls))]"
    "result w' = Some (f (snd (last calls)))" "timers w' = []" "timerId w' = None"
    by blast
  then show ?thesis
    using r0 w1(1) by (simp add: simulate_def pending_def)
qed

text \<open>
  The scenario of the specification: \<open>wait = 100\<close>, calls at \<open>0\<close>, \<open>30\<close> and
  \<open>60\<close> with one argument each, one invocation at \<open>160\<close> with the last argument.
\<close>

theorem trailing_burst_witness:
  "burst 100 [(0, [1]), (30, [2]), (60, [3 :: nat])] \<and>
   idle (fresh :: (nat, nat) hook) \<and>
   map_option invoked
     (simulate (configure False (Some (Num 100)) None) length 2
        [(0, [1]), (30, [2]), (60, [3 :: nat])] 1000 fresh) =
     Some [(160, [3])]"
proof -
  define cfg where "cfg = configure False (Some (Num 100)) None"
  define calls :: "(int \<times> nat list) list"
    where "calls = [(0, [1]), (30, [2]), (60, [3])]"
  have d: "\<not> leading cfg" "trailing cfg" "\<not> maxing cfg"
    by (simp_all add: cfg_def cfg_defs)
  have b: "burst 100 calls" "0 \<le> fst (hd calls)" "fst (last calls) + 100 \<le> 1000"
    by (simp_all add: calls_def burst_def)
  have i: "idle (fresh :: (nat, nat) hook)"
    by (simp add: idle_def fresh_def)
  from trailing_burst [OF cfg_def d _ b(1,2) i _ b(3), of 2 length]
  obtain w' where "simulate cfg length 2 calls 1000 (fresh :: (nat, nat) hook) = Some w'"
    "invoked w' = invoked (fresh :: (nat, nat) hook) @ [(fst (last calls) + 100, snd (last calls))]"
    by auto
  then have "map_option invoked (simulate cfg length 2 calls 1000 (fresh :: (nat, nat) hook)) =
      Some [(160, [3])]"
    by (simp add: calls_def fresh_def)
  with b(1) i show ?thesis
    unfolding cfg_def calls_def by blast
qed

section \<open>A single call on the leading edge\<close>

text \<open>
  C10: \<open>invokeFunc\<close> clears the held arguments and passes the ones that were held to
  \<open>func\<close>. So for one call with \<open>leading\<close> on, made on an idle hook at a time when
  \<open>shouldInvoke\<close> holds: the call invokes \<open>func\<close> at once and leaves no arguments
  held and a timer pending; when the host has run that timer, \<open>func\<close> has been
  invoked exactly once, at the time of the call, and nothing is pending. This does not
  depend on \<open>trailing\<close>, on \<open>maxWait\<close> or on the scheduling primitive.
\<close>

theorem leading_call_invokes_once:
  "lastArgs (snd (invokeFunc f time v)) = None \<and>
   invoked (snd (invokeFunc f time v)) =
     invoked v @ [(time, case lastArgs v of None \<Rightarrow> [] | Some a \<Rightarrow> a)] \<and>
   (cfg = configure hw wa opts \<and> leading cfg \<and> idle w \<and> shouldInvoke cfg t w \<and>
    0 < fuel \<and> t + max 0 (wait cfg) \<le> horizon \<longrightarrow>
      fst (debounced cfg f t a w) = Some (f a) \<and>
      lastArgs (snd (debounced cfg f t a w)) = None \<and>
      pending (snd (debounced cfg f t a w)) \<and>
      (\<exists>w'. simulate cfg f fuel [(t, a)] horizon w = Some w' \<and>
            invoked w' = invoked w @ [(t, a)] \<and> timers w' = [] \<and> \<not> pending w'))"
proof -
  have inv1: "lastArgs (snd (invokeFunc f time v)) = None"
    by (simp add: invokeFunc_def Let_def)
  have inv2: "invoked (snd (invokeFunc f time v)) =
       invoked v @ [(time, case lastArgs v of None \<Rightarrow> [] | Some a \<Rightarrow> a)]"
    by (simp add: invokeFunc_def Let_def)
  have single: "fst (debounced cfg f t a w) = Some (f a) \<and>
      lastArgs (snd (debounced cfg f t a w)) = None \<and>
      pending (snd (debounced cfg f t a w)) \<and>
      (\<exists>w'. simulate cfg f fuel [(t, a)] horizon w = Some w' \<and>
            invoked w' = invoked w @ [(t, a)] \<and> timers w' = [] \<and> \<not> pending w')"
    if h: "cfg = configure hw wa opts" "leading cfg" "idle w" "shouldInvoke cfg t w"
      "0 < fuel" "t + max 0 (wait cfg) \<le> horizon"
  proof -
    define tm where
      "tm = Timer (nextId w) (if useRAF cfg then AnimationFrame else Timeout (wait cfg)) t"
    define w1 where
      "w1 = w\<lparr>lastCallTime := Some t, lastInvokeTime := t, timerId := Some (nextId w),
              lastArgs := None, result := Some (f a), timers := [tm], nextId := Suc (nextId w),
              invoked := invoked w @ [(t, a)]\<rparr>"
    from h(1) have raf: "useRAF cfg \<Longrightarrow> wait cfg = 0"
      by (simp add: configure_raf_wait)
    have call: "debounced cfg f t a w = (Some (f a), w1)"
      using h(2,3,4)
      by (simp add: w1_def tm_def idle_def debounced_def startTimer_def invokeFunc_def
            cancelTimer_def num_of_def Let_def)
    have d: "due tm = (if useRAF cfg then t else t + max 0 (wait cfg))"
      by (simp add: tm_def)
    with raf have dh: "due tm \<le> horizon" "t \<le> due tm" "wait cfg \<le> due tm - t"
      using h(6) by (auto split: if_splits)
    from h(3) have m: "mounted w" by (simp add: idle_def)
    have yes: "shouldInvoke cfg (due tm) (w1\<lparr>timers := []\<rparr>)"
      using m dh by (simp add: w1_def shouldInvoke_def num_of_def Let_def)
    have f1: "fire cfg f tm w1 = w1\<lparr>timers := [], timerId := None\<rparr>"
      using yes by (simp add: fire_def timerExpired_def trailingEdge_def w1_def)
    from h(5) obtain k where k: "fuel = Suc k" by (cases fuel) auto
    have "next_due horizon (timers w1) = Some tm"
      using dh by (simp add: w1_def next_due_single)
    then have "advance cfg f fuel horizon w1 = advance cfg f k horizon (fire cfg f tm w1)"
      unfolding k by simp
    also have "\<dots> = Some (fire cfg f tm w1)"
      by (rule advance_none_due) (simp add: f1)
    finally have adv: "advance cfg f fuel horizon w1 = Some (w1\<lparr>timers := [], timerId := None\<rparr>)"
      by (simp add: f1)
    have "advance cfg f fuel t w = Some w"
      using h(3) by (intro advance_none_due) (simp add: idle_def)
    then have "simulate cfg f fuel [(t, a)] horizon w = Some (w1\<lparr>timers := [], timerId := None\<rparr>)"
      using call adv by (simp add: simulate_def)
    then show ?thesis
      using call by (simp add: w1_def pending_def)
  qed
  from single have "cfg = configure hw wa opts \<and> leading cfg \<and> idle w \<and> shouldInvoke cfg t w \<and>
    0 < fuel \<and> t + max 0 (wait cfg) \<le> horizon \<longrightarrow>
      fst (debounced cfg f t a w) = Some (f a) \<and>
      lastArgs (snd (debounced cfg f t a w)) = None \<and>
      pending (snd (debounced cfg f t a w)) \<and>
      (\<exists>w'. simulate cfg f fuel [(t, a)] horizon w = Some w' \<and>
            invoked w' = invoked w @ [(t, a)] \<and> timers w' = [] \<and> \<not> pending w')"
    by (intro impI) (elim conjE)
  with inv1 inv2 show ?thesis by (intro conjI)
qed

theorem leading_call_invokes_once_witness:
  "leading (configure False (Some (Num 100))
      (Some \<lparr>opt_maxWait = None, opt_leading = Some True, opt_trailing = Some True\<rparr>)) \<and>
   idle (fresh :: (bool, nat) hook) \<and>
   shouldInvoke (configure False (Some (Num 100))
      (Some \<lparr>opt_maxWait = None, opt_leading = Some True, opt_trailing = Some True\<rparr>))
      1000 (fresh :: (bool, nat) hook) \<and>
   map_option invoked
     (simulate (configure False (Some (Num 100))
        (Some \<lparr>opt_maxWait = None, opt_leading = Some True, opt_trailing = Some True\<rparr>))
        length 1 [(1000, [True])] 1100 fresh) =
     Some [(1000, [True])]"
proof -
  define cfg where "cfg = configure False (Some (Num 100))
      (Some \<lparr>opt_maxWait = None, opt_leading = Some True, opt_trailing = Some True\<rparr>)"
  have l: "leading cfg" "wait cfg = 100"
    by (simp_all add: cfg_def cfg_defs)
  have i: "idle (fresh :: (bool, nat) hook)"
    by (simp add: idle_def fresh_def)
  have s: "shouldInvoke cfg 1000 (fresh :: (bool, nat) hook)"
    by (simp add: shouldInvoke_def not_set_def fresh_def)
  from l(2) have h: "(0 :: nat) < 1" "1000 + max 0 (wait cfg) \<le> 1100"
    by simp_all
  from leading_call_invokes_once [of length 0 "fresh :: (bool, nat) hook" cfg False "Some (Num 100)"
      "Some \<lparr>opt_maxWait = None, opt_leading = Some True, opt_trailing = Some True\<rparr>"
      "fresh :: (bool, nat) hook" 1000 1 1100 "[True]"] cfg_def l(1) i s h
  obtain w' where "simulate cfg length 1 [(1000, [True])] 1100 (fresh :: (bool, nat) hook) = Some w'"
    "invoked w' = invoked (fresh :: (bool, nat) hook) @ [(1000, [True])]"
    by blast
  then have "map_option invoked (simulate cfg length 1 [(1000, [True])] 1100 (fresh :: (bool, nat) hook)) =
      Some [(1000, [True])]"
    by (simp add: fresh_def)
  with l(1) i s show ?thesis
    unfolding cfg_def by blast
qed

section \<open>A stream of calls under maxWait\<close>

lemma gaps_snoc: "ts \<noteq> [] \<Longrightarrow> gaps (ts @ [y]) = gaps ts @ [y - last ts]"
  by (induction ts rule: gaps.induct) auto

lemma pot_append: "pot h (xs @ ys) = pot h xs + pot h ys"
  by (simp add: pot_def)

lemma pot_single: "pot h [tm] = nat (h + 1 - due tm)"
  by (simp add: pot_def)

lemma pot_filter: "pot h (filter P tms) \<le> pot h tms"
  by (induction tms) (auto simp: pot_def)

lemma pot_remove:
  "tm \<in> set tms \<Longrightarrow>
   pot h (filter (\<lambda>x. tm_id x \<noteq> tm_id tm) tms) + nat (h + 1 - due tm) \<le> pot h tms"
proof (induction tms)
  case Nil
  then show ?case by simp
next
  case (Cons t ts)
  have single: "pot h (t # ts) = nat (h + 1 - due t) + pot h ts" for t ts
    by (simp add: pot_def)
  show ?case
  proof (cases "tm_id t = tm_id tm")
    case False
    with Cons show ?thesis by (auto simp: single)
  next
    case True
    show ?thesis
    proof (cases "t = tm")
      case True
      then show ?thesis
        using pot_filter [of h "\<lambda>x. tm_id x \<noteq> tm_id tm" ts] by (simp add: single)
    next
      case False
      with Cons.prems have "tm \<in> set ts" by simp
      from Cons.IH [OF this] True show ?thesis by (simp add: single)
    qed
  qed
qed

lemma pot_zero: "pot h tms = 0 \<Longrightarrow> \<forall>tm \<in> set tms. h < due tm"
  by (induction tms) (auto simp: pot_def)

lemma pot_bound: "\<forall>tm \<in> set tms. h + 1 - due tm \<le> c \<Longrightarrow> pot h tms \<le> length tms * nat c"
  by (induction tms) (auto simp: pot_def)

lemma steadyD:
  assumes "steady wt m s0 s x w"
  shows "mounted w" "lastCallTime w = Some s" "0 \<le> s" "s \<le> x" "lastInvokeTime w \<le> x"
    "s - lastInvokeTime w < m" "\<forall>tm \<in> set (timers w). x \<le> due tm"
    "timerId w = None \<longrightarrow> lastArgs w = None" "lastArgs w = None \<longrightarrow> s \<le> lastInvokeTime w"
    "s = 0 \<longrightarrow> timerId w \<noteq> None \<and> (\<forall>tm \<in> set (timers w). wt \<le> due tm)"
    "last (s0 # map fst (invoked w)) = lastInvokeTime w"
    "list_all (\<lambda>g. g \<le> ceiling_of wt m) (gaps (s0 # map fst (invoked w)))"
    "timerId w \<noteq> None \<longrightarrow>
       (\<exists>tm \<in> set (timers w). due tm \<le> lastInvokeTime w + ceiling_of wt m)"
  using assms unfolding steady_def by blast+

lemma ceiling_of_ge: "wt \<le> m \<Longrightarrow> m \<le> ceiling_of wt m \<and> wt \<le> ceiling_of wt m \<and> 2 * wt - 1 \<le> ceiling_of wt m"
  by (simp add: ceiling_of_def)

lemma cappedD:
  assumes "capped cfg wt m"
  shows "\<not> useRAF cfg" "wait cfg = wt" "0 < wt" "maxing cfg" "maxWait cfg = Some m"
    "wt \<le> m" "trailing cfg"
  using assms unfolding capped_def by blast+

text \<open>
  The first timer due runs before the next call can come: it invokes when \<open>maxWait\<close>
  has passed since the last invocation, and is re-armed for later otherwise.
\<close>

lemma steady_fire:
  assumes cfg: "capped cfg wt m" and st: "steady wt m s0 s x w"
    and tm: "tm \<in> set (timers w)" "due tm \<le> h" "\<forall>y \<in> set (timers w). due tm \<le> due y"
    and h: "h < s + wt"
  shows "steady wt m s0 s (due tm) (fire cfg f tm w) \<and>
         pot h (timers (fire cfg f tm w)) < pot h (timers w) \<and>
         length (timers (fire cfg f tm w)) \<le> length (timers w)"
proof -
  define y where "y = due tm"
  define rest where "rest = filter (\<lambda>x. tm_id x \<noteq> tm_id tm) (timers w)"
  define w0 where "w0 = w\<lparr>timers := rest\<rparr>"
  note f = steadyD [OF st]
  note c = cappedD [OF cfg]
  from tm f have xy: "x \<le> y" "y \<le> h" by (auto simp: y_def)
  have s: "0 < s"
  proof (rule ccontr)
    assume "\<not> 0 < s"
    with f have "s = 0" by simp
    with f tm(1) have "wt \<le> due tm" by blast
    with tm(2) h \<open>s = 0\<close> show False by simp
  qed
  have rest_due: "\<forall>t \<in> set rest. y \<le> due t"
    using tm(3) by (auto simp: rest_def y_def)
  have rest_pot: "pot h rest + nat (h + 1 - y) \<le> pot h (timers w)"
    unfolding rest_def y_def by (rule pot_remove [OF tm(1)])
  have rest_len: "length rest < length (timers w)"
    unfolding rest_def using tm(1) by (intro length_filter_less [of tm]) simp_all
  have si: "shouldInvoke cfg y w0 \<longleftrightarrow> m \<le> y - lastInvokeTime w"
    using f c s xy h by (auto simp: w0_def shouldInvoke_def not_set_def num_of_def Let_def)
  have fire: "fire cfg f tm w = snd (timerExpired cfg f y w0)"
    by (simp add: fire_def w0_def rest_def y_def)
  show ?thesis
  proof (cases "m \<le> y - lastInvokeTime w")
    case True
    have "lastArgs w \<noteq> None"
    proof
      assume "lastArgs w = None"
      with f have "s \<le> lastInvokeTime w" by simp
      with True xy h c show False by simp
    qed
    then obtain a where a: "lastArgs w = Some a" by auto
    have w': "fire cfg f tm w =
        w\<lparr>timers := rest, timerId := None, lastArgs := None, lastInvokeTime := y,
           result := Some (f a), invoked := invoked w @ [(y, a)]\<rparr>"
      using True si a c
      by (simp add: fire timerExpired_def trailingEdge_def invokeFunc_def w0_def Let_def)
    have g: "gaps ((s0 # map fst (invoked w)) @ [y]) =
             gaps (s0 # map fst (invoked w)) @ [y - lastInvokeTime w]"
      using gaps_snoc [of "s0 # map fst (invoked w)" y] f by simp
    from a f have "timerId w \<noteq> None" by auto
    with f obtain tm' where "tm' \<in> set (timers w)" "due tm' \<le> lastInvokeTime w + ceiling_of wt m"
      by blast
    with tm(3) have "y - lastInvokeTime w \<le> ceiling_of wt m"
      unfolding y_def by fastforce
    with g f have "list_all (\<lambda>g. g \<le> ceiling_of wt m) (gaps (s0 # map fst (invoked w) @ [y]))"
      by simp
    then have "steady wt m s0 s y (fire cfg f tm w)"
      using f(1-10) c s xy rest_due unfolding steady_def w' by simp
    moreover have "pot h (timers (fire cfg f tm w)) < pot h (timers w)"
      using rest_pot xy by (simp add: w')
    moreover have "length (timers (fire cfg f tm w)) \<le> length (timers w)"
      using rest_len by (simp add: w')
    ultimately show ?thesis unfolding y_def by blast
  next
    case False
    define r where "r = remainingWait cfg y w0"
    have r: "0 < r" "r \<le> m - (y - lastInvokeTime w)"
      using False f c xy h by (auto simp: r_def remainingWait_def w0_def num_of_def Let_def)
    from r ceiling_of_ge [OF c(6)] have new: "y + max 0 r \<le> lastInvokeTime w + ceiling_of wt m"
      by simp
    have w': "fire cfg f tm w =
        w\<lparr>timers := rest @ [Timer (nextId w) (Timeout r) y], timerId := Some (nextId w),
           nextId := Suc (nextId w)\<rparr>"
      using False si c
      by (simp add: fire timerExpired_def startTimer_def w0_def r_def Let_def)
    have "steady wt m s0 s y (fire cfg f tm w)"
      using f(1-12) c s xy r(1) new rest_due unfolding steady_def w' by auto
    moreover have "pot h (timers (fire cfg f tm w)) < pot h (timers w)"
      using rest_pot xy r(1) by (simp add: w' pot_append pot_single)
    moreover have "length (timers (fire cfg f tm w)) \<le> length (timers w)"
      using rest_len by (simp add: w')
    ultimately show ?thesis unfolding y_def by blast
  qed
qed

lemma steady_horizon:
  assumes "steady wt m s0 s x w" "x \<le> h" "\<forall>tm \<in> set (timers w). h < due tm"
  shows "steady wt m s0 s h w"
  using assms unfolding steady_def by fastforce

lemma steady_advance:
  assumes cfg: "capped cfg wt m"
  shows "steady wt m s0 s x w \<Longrightarrow> x \<le> h \<Longrightarrow> h < s + wt \<Longrightarrow> pot h (timers w) \<le> n \<Longrightarrow>
         \<exists>w'. advance cfg f n h w = Some w' \<and> steady wt m s0 s h w' \<and>
              length (timers w') \<le> length (timers w)"
proof (induction n arbitrary: w x)
  case 0
  then have later: "\<forall>tm \<in> set (timers w). h < due tm"
    by (simp add: pot_zero)
  then have "advance cfg f 0 h w = Some w"
    by (rule advance_none_due)
  moreover from "0.prems" later have "steady wt m s0 s h w"
    by (blast intro: steady_horizon)
  ultimately show ?case by simp
next
  case (Suc n)
  show ?case
  proof (cases "next_due h (timers w)")
    case None
    then have later: "\<forall>tm \<in> set (timers w). h < due tm"
      by (simp add: next_due_None)
    then have "advance cfg f (Suc n) h w = Some w"
      by (rule advance_none_due)
    moreover from Suc.prems later have "steady wt m s0 s h w"
      by (blast intro: steady_horizon)
    ultimately show ?thesis by simp
  next
    case (Some tm)
    note nd = next_due_Some [OF Some]
    from steady_fire [OF cfg Suc.prems(1) nd Suc.prems(3), of f]
    have st: "steady wt m s0 s (due tm) (fire cfg f tm w)"
      and p: "pot h (timers (fire cfg f tm w)) < pot h (timers w)"
      and l: "length (timers (fire cfg f tm w)) \<le> length (timers w)" by blast+
    from p Suc.prems(4) have "pot h (timers (fire cfg f tm w)) \<le> n" by simp
    from Suc.IH [OF st nd(2) Suc.prems(3) this]
    obtain w' where "advance cfg f n h (fire cfg f tm w) = Some w'"
      "steady wt m s0 s h w'" "length (timers w') \<le> length (timers (fire cfg f tm w))"
      by blast
    then show ?thesis using Some l by auto
  qed
qed

text \<open>
  The next call of the stream: it invokes through lines 144 to 148 when \<open>maxWait\<close>
  has passed since the last invocation, and only records its arguments otherwise.
\<close>

lemma steady_call:
  assumes cfg: "capped cfg wt m" and st: "steady wt m s0 s t w"
    and t: "t - s < wt"
  shows "steady wt m s0 t t (snd (debounced cfg f t a w)) \<and>
         length (timers (snd (debounced cfg f t a w))) \<le> Suc (length (timers w))"
proof -
  note f = steadyD [OF st]
  note c = cappedD [OF cfg]
  have si: "shouldInvoke cfg t w \<longleftrightarrow> s = 0 \<or> m \<le> t - lastInvokeTime w"
    using f c t by (auto simp: shouldInvoke_def not_set_def num_of_def Let_def)
  show ?thesis
  proof (cases "s = 0 \<or> m \<le> t - lastInvokeTime w")
    case True
    have "timerId w \<noteq> None"
    proof
      assume n: "timerId w = None"
      with f have "s \<le> lastInvokeTime w" "s \<noteq> 0" by auto
      with True t c show False by simp
    qed
    then obtain i where "timerId w = Some i" by auto
    then have w': "snd (debounced cfg f t a w) =
        w\<lparr>lastCallTime := Some t, timerId := Some (nextId w),
           timers := timers w @ [Timer (nextId w) (Timeout wt) t], nextId := Suc (nextId w),
           lastArgs := None, lastInvokeTime := t, result := Some (f a),
           invoked := invoked w @ [(t, a)]\<rparr>"
      using True si c
      by (simp add: debounced_def startTimer_def invokeFunc_def num_of_def Let_def)
    have g: "gaps ((s0 # map fst (invoked w)) @ [t]) =
             gaps (s0 # map fst (invoked w)) @ [t - lastInvokeTime w]"
      using gaps_snoc [of "s0 # map fst (invoked w)" t] f by simp
    from \<open>timerId w \<noteq> None\<close> f
    obtain tm' where "tm' \<in> set (timers w)" "due tm' \<le> lastInvokeTime w + ceiling_of wt m"
      by blast
    with f have "t - lastInvokeTime w \<le> ceiling_of wt m"
      by fastforce
    with g f have "list_all (\<lambda>g. g \<le> ceiling_of wt m) (gaps (s0 # map fst (invoked w) @ [t]))"
      by simp
    then show ?thesis
      using f(1-10) c ceiling_of_ge [OF c(6)] unfolding steady_def w' by auto
  next
    case False
    then have w': "snd (debounced cfg f t a w) =
        (if timerId w = None
         then w\<lparr>lastArgs := Some a, lastCallTime := Some t, timerId := Some (nextId w),
                timers := timers w @ [Timer (nextId w) (Timeout wt) t], nextId := Suc (nextId w)\<rparr>
         else w\<lparr>lastArgs := Some a, lastCallTime := Some t\<rparr>)"
      using si c
      by (simp add: debounced_def startTimer_def Let_def)
    have fresh_timer: "t + max 0 wt \<le> lastInvokeTime w + ceiling_of wt m" if "timerId w = None"
    proof -
      from that f have "s \<le> lastInvokeTime w" by simp
      with t c ceiling_of_ge [OF c(6)] show ?thesis by simp
    qed
    show ?thesis
    proof (cases "timerId w = None")
      case True
      with fresh_timer False f c show ?thesis
        unfolding steady_def w' by auto
    next
      case n: False
      with f obtain tm' where "tm' \<in> set (timers w)" "due tm' \<le> lastInvokeTime w + ceiling_of wt m"
        by blast
      with n False f(1-12) c show ?thesis
        unfolding steady_def w' by auto
    qed
  qed
qed

lemma steady_run:
  assumes cfg: "capped cfg wt m"
  shows "steady wt m s0 s s w \<Longrightarrow> follows wt s cs \<Longrightarrow>
         (length (timers w) + length cs) * nat wt \<le> n \<Longrightarrow>
         \<exists>w'. run cfg f n cs w = Some w' \<and>
              steady wt m s0 (fst (last ((s, a) # cs))) (fst (last ((s, a) # cs))) w'"
proof (induction cs arbitrary: s a w)
  case Nil
  then show ?case by simp
next
  case (Cons c cs)
  obtain t b where c: "c = (t, b)" by (cases c)
  from Cons.prems c have t: "s \<le> t" "t - s < wt" and rest: "follows wt t cs" by simp_all
  from t have h: "t < s + wt" by simp
  from Cons.prems(1) have "\<forall>tm \<in> set (timers w). s \<le> due tm"
    by (rule steadyD)
  with h have "\<forall>tm \<in> set (timers w). t + 1 - due tm \<le> wt" by fastforce
  then have "pot t (timers w) \<le> length (timers w) * nat wt"
    by (rule pot_bound)
  also have "\<dots> \<le> (length (timers w) + length (c # cs)) * nat wt"
    by (intro mult_le_mono1) simp
  finally have p: "pot t (timers w) \<le> n"
    using Cons.prems(3) by simp
  from steady_advance [OF cfg Cons.prems(1) t(1) h p, of f]
  obtain w1 where w1: "advance cfg f n t w = Some w1" "steady wt m s0 s t w1"
    "length (timers w1) \<le> length (timers w)" by blast
  from steady_call [OF cfg w1(2) t(2), of f b]
  have st2: "steady wt m s0 t t (snd (debounced cfg f t b w1))"
    and l2: "length (timers (snd (debounced cfg f t b w1))) \<le> Suc (length (timers w1))" by blast+
  have "(length (timers (snd (debounced cfg f t b w1))) + length cs) * nat wt
          \<le> (length (timers w) + length (c # cs)) * nat wt"
    using l2 w1(3) by (intro mult_le_mono1) simp
  with Cons.prems(3)
  have fuel: "(length (timers (snd (debounced cfg f t b w1))) + length cs) * nat wt \<le> n"
    by simp
  from Cons.IH [OF st2 rest fuel, of b]
  obtain w' where "run cfg f n cs (snd (debounced cfg f t b w1)) = Some w'"
    "steady wt m s0 (fst (last ((t, b) # cs))) (fst (last ((t, b) # cs))) w'" by blast
  then show ?case using w1(1) c by auto
qed

lemma steady_first_call:
  assumes cfg: "capped cfg wt m" and t: "0 \<le> t"
  shows "steady wt m t t t (snd (debounced cfg f t a fresh)) \<and>
         length (timers (snd (debounced cfg f t a fresh))) = 1"
  using assms ceiling_of_ge [of wt m]
  by (simp add: capped_def steady_def debounced_def shouldInvoke_def startTimer_def
        invokeFunc_def not_set_def num_of_def fresh_def Let_def)

text \<open>
  C2, as stated: under \<open>maxWait = M\<close> and calls less than \<open>wait\<close> apart, two
  consecutive invocations are never more than \<open>M\<close> apart. With
  \<open>wait = maxWait = 100\<close> and calls at \<open>1000\<close>, \<open>1090\<close>, \<open>1180\<close> and \<open>1270\<close>,
  every timer run when due, the invocations are at \<open>1100\<close> and at \<open>1270\<close>: the timer
  started by the call at \<open>1180\<close> is set for a full \<open>wait\<close>, and the ceiling_of is next
  looked at when the call at \<open>1270\<close> comes.
\<close>

theorem maxWait_exceeded:
  "burst 100 [(1000, [1]), (1090, [2]), (1180, [3]), (1270, [4 :: nat])] \<and>
   maxWait (configure False (Some (Num 100))
        (Some \<lparr>opt_maxWait = Some (Num 100), opt_leading = None, opt_trailing = None\<rparr>)) = Some 100 \<and>
   map_option invoked
     (run (configure False (Some (Num 100))
        (Some \<lparr>opt_maxWait = Some (Num 100), opt_leading = None, opt_trailing = None\<rparr>))
        length 2 [(1000, [1]), (1090, [2]), (1180, [3]), (1270, [4 :: nat])] fresh) =
     Some [(1100, [2]), (1270, [4])] \<and>
   gaps (map fst [(1100 :: int, [2 :: nat]), (1270, [4])]) = [170]"
  by (simp add: burst_def op_defs cfg_defs next_due_def fire_def Let_def eval_nat_numeral)

text \<open>
  C2, amended: with a positive numeric \<open>wait\<close>, \<open>maxWait\<close> configured (the set-up
  code makes it \<open>M = max maxWait wait\<close>) and the trailing edge on, for calls on a
  fresh hook that come less than \<open>wait\<close> apart, the host running every timer when it
  is due and the clock not negative: after any number of calls, two consecutive
  invocations are never more than \<open>max M (2 * wait - 1)\<close> apart, and neither are the
  first call and the first invocation, nor the last invocation and the latest call.
  So the time between invocations never exceeds \<open>M\<close> when \<open>M\<close> is at least
  \<open>2 * wait - 1\<close>; below that it can, but stays under twice \<open>wait\<close>. The host
  needs at most \<open>wait\<close> callbacks per call so far between two calls.
\<close>

theorem maxWait_progress:
  assumes cfg: "cfg = configure hw (Some (Num wt)) (Some opts)"
    and mw: "opt_maxWait opts = Some mw" and tr: "trailing cfg"
    and wt: "0 < wt"
    and calls: "burst wt calls" "0 \<le> fst (hd calls)"
    and fuel: "length calls * nat wt \<le> fuel"
  shows "maxWait cfg = Some (max (or_zero mw) wt) \<and>
         (\<exists>w'. run cfg f fuel calls fresh = Some w' \<and>
               list_all (\<lambda>g. g \<le> max (max (or_zero mw) wt) (2 * wt - 1))
                 (gaps (fst (hd calls) # map fst (invoked w') @ [fst (last calls)])) \<and>
               (2 * wt - 1 \<le> max (or_zero mw) wt \<longrightarrow>
                  list_all (\<lambda>g. g \<le> max (or_zero mw) wt)
                    (gaps (fst (hd calls) # map fst (invoked w') @ [fst (last calls)]))))"
proof -
  define m where "m = max (or_zero mw) wt"
  have mx: "maxWait cfg = Some m" "maxing cfg"
    using cfg mw by (simp_all add: m_def cfg_defs Let_def)
  have c: "capped cfg wt m"
    using cfg mx tr wt by (simp add: capped_def configure_number m_def)
  from calls(1) obtain t a cs where cs: "calls = (t, a) # cs" "follows wt t cs"
    by (auto simp: burst_def split: list.splits)
  from calls(2) cs have t: "0 \<le> t" by simp
  let ?w1 = "snd (debounced cfg f t a (fresh :: ('a, 'b) hook))"
  from steady_first_call [OF c t, of f a]
  have st1: "steady wt m t t t ?w1" and l1: "length (timers ?w1) = 1" by blast+
  from fuel l1 cs have n: "(length (timers ?w1) + length cs) * nat wt \<le> fuel" by simp
  from steady_run [OF c st1 cs(2) n, of f a]
  obtain w' where w': "run cfg f fuel cs ?w1 = Some w'"
    "steady wt m t (fst (last calls)) (fst (last calls)) w'"
    unfolding cs by blast
  have "advance cfg f fuel t (fresh :: ('a, 'b) hook) = Some fresh"
    by (rule advance_none_due) (simp add: fresh_def)
  then have r: "run cfg f fuel calls fresh = Some w'"
    using w'(1) cs by simp
  note e = steadyD [OF w'(2)]
  have m_le: "m \<le> ceiling_of wt m"
    by (simp add: ceiling_of_def)
  have "gaps ((t # map fst (invoked w')) @ [fst (last calls)]) =
        gaps (t # map fst (invoked w')) @ [fst (last calls) - lastInvokeTime w']"
    using gaps_snoc [of "t # map fst (invoked w')" "fst (last calls)"] e(11) by simp
  with e(6,12) m_le
  have all: "list_all (\<lambda>g. g \<le> ceiling_of wt m)
               (gaps (t # map fst (invoked w') @ [fst (last calls)]))"
    by simp
  have "list_all (\<lambda>g. g \<le> m) (gaps (t # map fst (invoked w') @ [fst (last calls)]))"
    if "2 * wt - 1 \<le> m"
  proof -
    from that have "ceiling_of wt m = m" by (simp add: ceiling_of_def)
    with all show ?thesis by simp
  qed
  with r mx(1) all show ?thesis
    unfolding m_def cs ceiling_of_def by auto
qed

text \<open>
  With \<open>wait = 100\<close>, \<open>maxWait = 250\<close> and a call every \<open>60\<close> ms from \<open>1000\<close> to
  \<open>1540\<close>, the invocations come at \<open>1250\<close> and at \<open>1500\<close>: the ceiling is reached,
  and not passed.
\<close>

theorem maxWait_progress_witness:
  "burst 100 [(1000, [0]), (1060, [1]), (1120, [2]), (1180, [3]), (1240, [4]),
              (1300, [5]), (1360, [6]), (1420, [7]), (1480, [8]), (1540, [9 :: nat])] \<and>
   maxWait (configure False (Some (Num 100))
      (Some \<lparr>opt_maxWait = Some (Num 250), opt_leading = None, opt_trailing = None\<rparr>)) = Some 250 \<and>
   (\<exists>w'. run (configure False (Some (Num 100))
             (Some \<lparr>opt_maxWait = Some (Num 250), opt_leading = None, opt_trailing = None\<rparr>))
             length 1000
             [(1000, [0]), (1060, [1]), (1120, [2]), (1180, [3]), (1240, [4]),
              (1300, [5]), (1360, [6]), (1420, [7]), (1480, [8]), (1540, [9 :: nat])] fresh = Some w' \<and>
         invoked w' = [(1250, [4]), (1500, [8])] \<and>
         list_all (\<lambda>g. g \<le> 250) (gaps (1000 # map fst (invoked w') @ [1540]))) \<and>
   gaps (1000 # map fst [(1250 :: int, [4 :: nat]), (1500, [8])] @ [1540]) = [250, 250, 40]"
proof -
  define opts where
    "opts = \<lparr>opt_maxWait = Some (Num 250), opt_leading = None, opt_trailing = None\<rparr>"
  define cfg where "cfg = configure False (Some (Num 100)) (Some opts)"
  define calls :: "(int \<times> nat list) list"
    where "calls = [(1000, [0]), (1060, [1]), (1120, [2]), (1180, [3]), (1240, [4]),
                    (1300, [5]), (1360, [6]), (1420, [7]), (1480, [8]), (1540, [9])]"
  have o: "opt_maxWait opts = Some (Num 250)" "trailing cfg"
    by (simp_all add: opts_def cfg_def cfg_defs)
  have b: "burst 100 calls" "0 \<le> fst (hd calls)" "length calls * nat 100 \<le> 1000"
    by (simp_all add: calls_def burst_def)
  have log: "map_option invoked (run cfg length 1000 calls fresh) = Some [(1250, [4]), (1500, [8])]"
    by (simp add: calls_def cfg_def opts_def op_defs cfg_defs next_due_def fire_def Let_def
          eval_nat_numeral)
  have p: "(0 :: int) < 100"
    by simp
  from maxWait_progress [OF cfg_def o p b, of length]
  have "maxWait cfg = Some (max (or_zero (Num 250)) 100) \<and>
        (\<exists>w'. run cfg length 1000 calls fresh = Some w' \<and>
              list_all (\<lambda>g. g \<le> max (max (or_zero (Num 250)) 100) (2 * 100 - 1))
                (gaps (fst (hd calls) # map fst (invoked w') @ [fst (last calls)])))"
    by blast
  then have "maxWait cfg = Some 250 \<and>
        (\<exists>w'. run cfg length 1000 calls fresh = Some w' \<and>
              list_all (\<lambda>g. g \<le> 250) (gaps (1000 # map fst (invoked w') @ [1540])))"
    by (simp add: or_zero_def calls_def)
  with log have "maxWait cfg = Some 250 \<and>
        (\<exists>w'. run cfg length 1000 calls fresh = Some w' \<and>
              invoked w' = [(1250, [4]), (1500, [8])] \<and>
              list_all (\<lambda>g. g \<le> 250) (gaps (1000 # map fst (invoked w') @ [1540])))"
    by auto
  moreover have "gaps (1000 # map fst [(1250 :: int, [4 :: nat]), (1500, [8])] @ [1540]) = [250, 250, 40]"
    by simp
  ultimately show ?thesis
    using b(1) unfolding cfg_def opts_def calls_def by blast
qed

end
